theory Spec2Isabelle
  imports Main "HOL-Library.Word"
begin

section \<open>Common vocabulary of the two programs\<close>

text \<open>
  Both programs end by returning from \<open>main\<close>: with 0, or with 1 after a diagnostic
  on the standard error stream.  The diagnostic names the failing operation.
\<close>

datatype diag = Usage | Setlocale_failed | Malloc_failed | Printf_failed | Getline_failed

text \<open>
  The harness stores into a fixed array.  A store past its last element, and a
  read of an element nothing was stored into, have no defined behaviour in C; the
  model stops there and reports which of the two happened.
\<close>

datatype fault = Runes_overrun | Uninit_read

datatype run_end = Exit_ok | Exit_fail diag | Undefined fault

fun exit_code :: "run_end \<Rightarrow> int option" where
  "exit_code Exit_ok = Some 0"
| "exit_code (Exit_fail d) = Some 1"
| "exit_code (Undefined f) = None"

text \<open>One more item written to standard output before the rest of the run.\<close>

fun emit :: "'a \<Rightarrow> run_end \<times> 'a list \<Rightarrow> run_end \<times> 'a list" where
  "emit x (e, xs) = (e, x # xs)"

section \<open>generate-width-data.c: the range compressor\<close>

text \<open>
  One line of output, \<open>printf("%d %d %d\n", previous_width, start, end)\<close>: the width,
  the first and the last code point of the range.
\<close>

record range_rec =
  r_width :: int
  r_start :: int
  r_end :: int

text \<open>
  The macro \<open>IS_BOUNDARY(x)\<close>, disjunct by disjunct.  Its argument is the loop counter,
  a \<open>wchar_t\<close> between 0 and 0x10FFFF (\<open>wchar_t\<close> has 32 bits with glibc, whose
  locale C.UTF-8 the program asks for), so \<open>(x) - 1\<close> and \<open>i++\<close> never wrap and
  \<open>int\<close> is exact.
\<close>

definition IS_BOUNDARY :: "int \<Rightarrow> bool" where
  "IS_BOUNDARY x \<longleftrightarrow>
     x = 0x80 \<or> x = 0x800 \<or> x = 0x10000 \<or> x = 0x10FFFF \<or>
     (x = 0xD800 \<or> x - 1 = 0xDFFF) \<or>
     (x = 0xE000 \<or> x - 1 = 0xF8FF) \<or>
     (x = 0xF0000 \<or> x - 1 = 0xFFFFD) \<or>
     (x = 0x100000 \<or> x - 1 = 0x10FFFD)"

text \<open>
  The \<open>for\<close> loop of \<open>main\<close>.  The arguments are the classifier \<open>wcwidth\<close> of the C
  library, the loop variables \<open>i\<close>, \<open>start\<close>, \<open>end\<close>, \<open>previous_width\<close>, and the output
  stream: \<open>printf_fails k\<close> says that the call of \<open>printf\<close> made after \<open>k\<close> successful
  ones returns a negative value.  The result is how \<open>main\<close> ends and the records
  written from this iteration on.  \<open>printf\<close> is only called when \<open>i\<close> is not 0.
\<close>

function scan ::
  "(int \<Rightarrow> int) \<Rightarrow> (nat \<Rightarrow> bool) \<Rightarrow> int \<Rightarrow> int \<Rightarrow> int \<Rightarrow> int \<Rightarrow> nat \<Rightarrow> run_end \<times> range_rec list"
where
  "scan wcwidth printf_fails i start end' previous_width k =
     (if i \<le> 0x10FFFF then
        (let width = wcwidth i in
         if i = 0 \<or> width \<noteq> previous_width \<or> IS_BOUNDARY i then
           (if i \<noteq> 0 then
              (if printf_fails k then (Exit_fail Printf_failed, [])
               else emit \<lparr>r_width = previous_width, r_start = start, r_end = end'\<rparr>
                      (scan wcwidth printf_fails (i + 1) i i width (k + 1)))
            else scan wcwidth printf_fails (i + 1) i i width k)
         else scan wcwidth printf_fails (i + 1) start i previous_width k)
      else (Exit_ok, []))"
  by pat_completeness auto
termination
  by (relation "measure (\<lambda>(w, f, i, s, e, p, k). nat (0x110000 - i))") auto

declare scan.simps [simp del]

text \<open>\<open>main\<close>: \<open>previous_width = 0\<close>, and \<open>i\<close>, \<open>start\<close>, \<open>end\<close> start at 0.\<close>

definition generate_width_data_main ::
  "(int \<Rightarrow> int) \<Rightarrow> (nat \<Rightarrow> bool) \<Rightarrow> run_end \<times> range_rec list" where
  "generate_width_data_main wcwidth printf_fails = scan wcwidth printf_fails 0 0 0 0 0"

text \<open>The eleven code points the specification lists as mandatory boundaries.\<close>

definition mandatory_boundaries :: "int set" where
  "mandatory_boundaries =
     {0x80, 0x800, 0x10000, 0x10FFFF, 0xD800, 0xE000, 0xF900, 0xF0000, 0xFFFFE,
      0x100000, 0x10FFFE}"

text \<open>The records written, whatever way the run ends.\<close>

definition emitted_ranges :: "(int \<Rightarrow> int) \<Rightarrow> (nat \<Rightarrow> bool) \<Rightarrow> range_rec list" where
  "emitted_ranges wcwidth printf_fails = snd (generate_width_data_main wcwidth printf_fails)"

text \<open>
  Two shapes of a record list, used in the proofs.  \<open>chain s rs\<close>: the first record
  starts at \<open>s\<close>, no record is empty, and each record starts right after the one before
  it ends.  \<open>no_merge rs\<close>: two neighbours of equal width meet at a boundary.
\<close>

fun chain :: "int \<Rightarrow> range_rec list \<Rightarrow> bool" where
  "chain s [] = True"
| "chain s (r # rs) = (r_start r = s \<and> s \<le> r_end r \<and> chain (r_end r + 1) rs)"

fun no_merge :: "range_rec list \<Rightarrow> bool" where
  "no_merge (a # b # rs) \<longleftrightarrow>
     (r_width a = r_width b \<longrightarrow> IS_BOUNDARY (r_start b)) \<and> no_merge (b # rs)"
| "no_merge rs \<longleftrightarrow> True"

section \<open>test-data/wcswidths.c: the harness\<close>

subsection \<open>The C library, as far as the harness uses it\<close>

type_synonym byte = "8 word"
type_synonym size_t = "64 word"

text \<open>
  What \<open>limits.h\<close>, the compiler and the locale provide: \<open>LINE_MAX\<close>, \<open>sizeof(wchar_t)\<close>,
  the conversion of one multibyte character at the front of a byte string (the wide
  character and the number of bytes it takes, or nothing when the bytes are invalid),
  and \<open>wcwidth\<close>.
\<close>

record libc =
  LINE_MAX :: nat
  sizeof_wchar_t :: nat
  decode_char :: "byte list \<Rightarrow> (int \<times> nat) option"
  char_width :: "int \<Rightarrow> int"

text \<open>
  \<open>getline\<close> hands out the bytes up to and including the next newline, or what is
  left when the stream ends without one; it returns -1 when nothing is left.  It
  enlarges the buffer as needed, so a line of any length is handed out whole (that
  the enlargement can fail for want of memory is left out of the model).
\<close>

fun getline_split :: "byte list \<Rightarrow> byte list \<times> byte list" where
  "getline_split [] = ([], [])"
| "getline_split (b # bs) =
     (if b = 0x0A then ([b], bs)
      else (let (line, rest) = getline_split bs in (b # line, rest)))"

definition getline :: "byte list \<Rightarrow> (byte list \<times> byte list) option" where
  "getline input = (if input = [] then None else Some (getline_split input))"

text \<open>
  \<open>mbstowcs(pwcs, s, n)\<close> after POSIX: it converts the characters of the string \<open>s\<close>
  in turn and stores at most \<open>n\<close> wide characters; an invalid character makes it
  return \<open>(size_t) -1\<close>.  \<open>mbs_convert\<close> is that loop on the bytes before the
  terminating null byte.
\<close>

fun mbs_convert :: "(byte list \<Rightarrow> (int \<times> nat) option) \<Rightarrow> nat \<Rightarrow> byte list \<Rightarrow> int list option" where
  "mbs_convert dec 0 s = Some []"
| "mbs_convert dec (Suc n) s =
     (if s = [] then Some []
      else (case dec s of
              None \<Rightarrow> None
            | Some (wc, used) \<Rightarrow> map_option ((#) wc) (mbs_convert dec n (drop used s))))"

text \<open>
  The conversion stores each wide character as it goes, so when it meets an invalid
  character the array already holds the characters in front of it: \<open>mbs_prefix\<close> is
  what the same loop has stored when it stops, at the end of the string, at an
  invalid character or after \<open>n\<close> wide characters.
\<close>

fun mbs_prefix :: "(byte list \<Rightarrow> (int \<times> nat) option) \<Rightarrow> nat \<Rightarrow> byte list \<Rightarrow> int list" where
  "mbs_prefix dec 0 s = []"
| "mbs_prefix dec (Suc n) s =
     (if s = [] then []
      else (case dec s of
              None \<Rightarrow> []
            | Some (wc, used) \<Rightarrow> wc # mbs_prefix dec n (drop used s)))"

text \<open>
  The string that \<open>getline\<close> returns is the line followed by a null byte, so a null
  byte inside the line ends the string early.  The result is the return value and the
  array elements modified.  After a conversion that succeeds these are the characters
  converted, and the terminating null wide character when fewer than \<open>n\<close> were
  converted.  After a conversion that fails they are the characters converted before
  the invalid one, as glibc leaves them in the array.
\<close>

definition mbstowcs :: "libc \<Rightarrow> byte list \<Rightarrow> nat \<Rightarrow> size_t \<times> int list" where
  "mbstowcs L s n =
     (case mbs_convert (decode_char L) n (takeWhile (\<lambda>b. b \<noteq> 0) s) of
        None \<Rightarrow> (- 1, mbs_prefix (decode_char L) n (takeWhile (\<lambda>b. b \<noteq> 0) s))
      | Some ws \<Rightarrow> (word_of_nat (length ws), ws @ (if length ws < n then [0] else [])))"

text \<open>
  \<open>wcswidth(pwcs, n)\<close>: the widths of at most \<open>n\<close> wide characters are added up, a
  null wide character ends the string, a character of width -1 makes the result -1.
  The list is the array from \<open>pwcs\<close> on, as far as it was stored into.
\<close>

fun wcswidth :: "(int \<Rightarrow> int) \<Rightarrow> int list \<Rightarrow> nat \<Rightarrow> int \<Rightarrow> fault + int" where
  "wcswidth wcw [] n result = (if n = 0 then Inr result else Inl Uninit_read)"
| "wcswidth wcw (c # cs) n result =
     (if n = 0 \<or> c = 0 then Inr result
      else if wcw c = - 1 then Inr (- 1)
      else wcswidth wcw cs (n - 1) (result + wcw c))"

subsection \<open>The program\<close>

text \<open>\<open>sizeof(runes)\<close> for \<open>wchar_t runes[LINE_MAX]\<close>: a number of bytes.\<close>

definition sizeof_runes :: "libc \<Rightarrow> nat" where
  "sizeof_runes L = LINE_MAX L * sizeof_wchar_t L"

text \<open>
  The body of the \<open>while\<close> loop up to the value of \<open>width\<close>.  \<open>mbstowcs\<close> is given
  \<open>sizeof(runes)\<close> as the number of wide characters it may store, and \<open>runes\<close> has
  \<open>LINE_MAX\<close> elements: what \<open>mbstowcs\<close> has stored is held against that number
  first, whether the conversion succeeded or not.  \<open>count - 1\<close> is computed in
  \<open>size_t\<close>.
\<close>

definition line_result :: "libc \<Rightarrow> byte list \<Rightarrow> fault + int" where
  "line_result L line =
     (let (count, stored) = mbstowcs L line (sizeof_runes L) in
      if LINE_MAX L < length stored then Inl Runes_overrun
      else if count \<noteq> - 1 then wcswidth (char_width L) stored (unat (count - 1)) 0
      else Inr (- 1))"

text \<open>
  The \<open>while\<close> loop and the \<open>ferror\<close> test after it.  \<open>input\<close> is what is left of
  standard input, \<open>stdin_error\<close> says that the stream ends in a read error instead of
  an end of file, \<open>printf_fails k\<close> that the call of \<open>printf\<close> after \<open>k\<close> successful
  ones fails.  The result is how \<open>main\<close> ends and the integers written.
\<close>

function read_loop ::
  "libc \<Rightarrow> (nat \<Rightarrow> bool) \<Rightarrow> bool \<Rightarrow> byte list \<Rightarrow> nat \<Rightarrow> run_end \<times> int list"
where
  "read_loop L printf_fails stdin_error input k =
     (case getline input of
        None \<Rightarrow> (if stdin_error then Exit_fail Getline_failed else Exit_ok, [])
      | Some (line, rest) \<Rightarrow>
          (case line_result L line of
             Inl f \<Rightarrow> (Undefined f, [])
           | Inr width \<Rightarrow>
               if printf_fails k then (Exit_fail Printf_failed, [])
               else emit width (read_loop L printf_fails stdin_error rest (k + 1))))"
  by pat_completeness auto
termination
proof (relation "measure (\<lambda>(L, pf, se, input, k). length input)")
  show "wf (measure (\<lambda>(L, pf, se, input, k). length input))" by simp
next
  fix L :: libc and printf_fails :: "nat \<Rightarrow> bool" and stdin_error :: bool
    and input :: "byte list" and k :: nat and x2 line rest x2a
  assume g: "getline input = Some x2" "(line, rest) = x2"
  have shorter: "length (snd (getline_split bs)) < length bs" if "bs \<noteq> []" for bs
    using that
  proof (induction bs)
    case Nil then show ?case by simp
  next
    case (Cons b bs)
    then show ?case by (cases bs) (auto split: prod.splits)
  qed
  from g have "input \<noteq> []" "rest = snd (getline_split input)"
    by (auto simp add: getline_def split: if_splits)
  with shorter [of input]
  show "((L, printf_fails, stdin_error, rest, k + 1), L, printf_fails, stdin_error, input, k)
          \<in> measure (\<lambda>(L, pf, se, input, k). length input)"
    by simp
qed

declare read_loop.simps [simp del]

text \<open>What \<open>main\<close> is started with, and the two streams.\<close>

record sys =
  argc :: nat
  setlocale_ok :: bool
  malloc_ok :: bool
  stdout_fails :: "nat \<Rightarrow> bool"
  stdin_error :: bool

definition wcswidths_main :: "libc \<Rightarrow> sys \<Rightarrow> byte list \<Rightarrow> run_end \<times> int list" where
  "wcswidths_main L S input =
     (if argc S > 1 then (Exit_fail Usage, [])
      else if \<not> setlocale_ok S then (Exit_fail Setlocale_failed, [])
      else if \<not> malloc_ok S then (Exit_fail Malloc_failed, [])
      else read_loop L (stdout_fails S) (stdin_error S) input 0)"

subsection \<open>The specification's words\<close>

text \<open>
  The specification speaks of decoding "each line from its external byte encoding
  into a sequence of abstract code points".  \<open>decode_line\<close> is that notion, to
  compare the program with: every byte of the line is decoded, a null byte like any
  other, and the line has no decoding when some byte sequence in it is invalid.  The
  first argument of \<open>decode_upto\<close> bounds the number of characters.
\<close>

fun decode_upto :: "nat \<Rightarrow> (byte list \<Rightarrow> (int \<times> nat) option) \<Rightarrow> byte list \<Rightarrow> int list option" where
  "decode_upto 0 dec s = (if s = [] then Some [] else None)"
| "decode_upto (Suc m) dec s =
     (if s = [] then Some []
      else (case dec s of
              None \<Rightarrow> None
            | Some (wc, used) \<Rightarrow> map_option ((#) wc) (decode_upto m dec (drop used s))))"

definition decode_line :: "(byte list \<Rightarrow> (int \<times> nat) option) \<Rightarrow> byte list \<Rightarrow> int list option" where
  "decode_line dec line = decode_upto (length line) dec line"

text \<open>
  The specification's width of a sequence of code points: "summing per-code-point
  widths with the special rule that an unclassifiable width (width undefined for any
  code point in the sequence) forces the entire line's result to -1".
\<close>

definition total_width :: "(int \<Rightarrow> int) \<Rightarrow> int list \<Rightarrow> int" where
  "total_width wcw cps = (if - 1 \<in> wcw ` set cps then - 1 else sum_list (map wcw cps))"

text \<open>
  What the theorems ask of a C library: the array \<open>runes\<close> is not empty and its size
  fits \<open>size_t\<close>; a character takes at least one byte; and only the null byte converts
  to the null wide character.
\<close>

definition sane_libc :: "libc \<Rightarrow> bool" where
  "sane_libc L \<longleftrightarrow>
     0 < LINE_MAX L \<and> 0 < sizeof_wchar_t L \<and> sizeof_runes L < 2 ^ 64 \<and>
     (\<forall>s wc used. decode_char L s = Some (wc, used) \<longrightarrow>
        0 < used \<and> (s \<noteq> [] \<and> hd s \<noteq> 0 \<longrightarrow> wc \<noteq> 0))"

definition starts :: "sys \<Rightarrow> bool" where
  "starts S \<longleftrightarrow> argc S \<le> 1 \<and> setlocale_ok S \<and> malloc_ok S"

subsection \<open>A C library for the examples\<close>

text \<open>
  The ASCII part of the C library, on which the POSIX locale and C.UTF-8 agree: a
  byte below 0x80 is one character, the printable ones have width 1, the null
  character width 0, the control characters width -1.  Bytes from 0x80 on are
  rejected here.  \<open>LINE_MAX\<close> is 2048 and \<open>wchar_t\<close> has four bytes, as with glibc.
  The examples below use ASCII bytes and the byte 0xFF, which is part of no UTF-8
  sequence, so that the program run in C.UTF-8 treats them the same way.
\<close>

fun ascii_decode :: "byte list \<Rightarrow> (int \<times> nat) option" where
  "ascii_decode [] = None"
| "ascii_decode (b # bs) = (if b < 0x80 then Some (uint b, 1) else None)"

definition ascii_width :: "int \<Rightarrow> int" where
  "ascii_width c = (if c = 0 then 0 else if 0x20 \<le> c \<and> c \<le> 0x7E then 1 else - 1)"

definition ascii_libc :: libc where
  "ascii_libc = \<lparr>LINE_MAX = 2048, sizeof_wchar_t = 4, decode_char = ascii_decode,
                  char_width = ascii_width\<rparr>"

definition plain_run :: sys where
  "plain_run = \<lparr>argc = 1, setlocale_ok = True, malloc_ok = True,
                 stdout_fails = (\<lambda>k. False), stdin_error = False\<rparr>"

section \<open>The boundary predicate\<close>

text \<open>
  C4.  \<open>IS_BOUNDARY(x)\<close> is true if and only if \<open>x\<close> is one of the eleven values
  0x80, 0x800, 0x10000, 0x10FFFF, 0xD800, 0xE000, 0xF900, 0xF0000, 0xFFFFE, 0x100000,
  0x10FFFE.  (0xE000 satisfies two disjuncts of the macro: it follows the last
  surrogate 0xDFFF and it is the first code point of the Private Use Area.)
\<close>

theorem IS_BOUNDARY_iff_mandatory:
  "IS_BOUNDARY x = (x \<in> mandatory_boundaries)"
  unfolding IS_BOUNDARY_def mandatory_boundaries_def by auto

section \<open>The scan, step by step\<close>

text \<open>
  The loop is followed from a state in which \<open>i\<close> is past 0 and \<open>end\<close> is \<open>i - 1\<close>,
  which is every state after the first iteration.
\<close>

lemma snd_emit [simp]: "snd (emit x p) = x # snd p"
  by (cases p) simp

lemma fst_emit [simp]: "fst (emit x p) = fst p"
  by (cases p) simp

lemma scan_chain:
  "0 < i \<Longrightarrow> s \<le> e \<Longrightarrow> e = i - 1 \<Longrightarrow> chain s (snd (scan w pf i s e pw k))"
proof (induction w pf i s e pw k rule: scan.induct)
  case (1 w pf i s e pw k)
  show ?case
    using "1.prems" "1.IH"
    by (subst scan.simps) (simp add: Let_def)
qed

lemma scan_ends:
  "0 < i \<Longrightarrow> e = i - 1 \<Longrightarrow> r \<in> set (snd (scan w pf i s e pw k)) \<Longrightarrow> r_end r \<le> 0x10FFFE"
proof (induction w pf i s e pw k rule: scan.induct)
  case (1 w pf i s e pw k)
  from "1.prems"(3) show ?case
    using "1.prems"(1,2) "1.IH"
    by (subst (asm) scan.simps) (auto simp add: Let_def split: if_splits)
qed

lemma scan_stop: "0x10FFFF < i \<Longrightarrow> scan w pf i s e pw k = (Exit_ok, [])"
  by (subst scan.simps) simp

lemma scan_zero: "scan w pf 0 s e pw k = scan w pf 1 0 0 (w 0) k"
  by (subst scan.simps) (simp add: Let_def)

lemma scan_new:
  "0 < i \<Longrightarrow> i \<le> 0x10FFFF \<Longrightarrow> w i \<noteq> pw \<or> IS_BOUNDARY i \<Longrightarrow> \<not> pf k \<Longrightarrow>
   scan w pf i s e pw k =
     emit \<lparr>r_width = pw, r_start = s, r_end = e\<rparr> (scan w pf (i + 1) i i (w i) (k + 1))"
  by (subst scan.simps) (simp add: Let_def)

lemma scan_same:
  "0 < i \<Longrightarrow> i \<le> 0x10FFFF \<Longrightarrow> w i = pw \<Longrightarrow> \<not> IS_BOUNDARY i \<Longrightarrow>
   scan w pf i s e pw k = scan w pf (i + 1) s i pw k"
  by (subst scan.simps) (simp add: Let_def)

lemma scan_complete:
  "0 < i \<Longrightarrow> i \<le> 0x10FFFF \<Longrightarrow> e = i - 1 \<Longrightarrow> \<forall>k. \<not> pf k \<Longrightarrow>
   fst (scan w pf i s e pw k) = Exit_ok \<and> snd (scan w pf i s e pw k) \<noteq> [] \<and>
   r_end (last (snd (scan w pf i s e pw k))) = 0x10FFFE"
proof (induction w pf i s e pw k rule: scan.induct)
  case (1 w pf i s e pw k)
  show ?case
  proof (cases "i = 0x10FFFF")
    case True
    then have "IS_BOUNDARY i" by (simp add: IS_BOUNDARY_def)
    then have "scan w pf i s e pw k =
        emit \<lparr>r_width = pw, r_start = s, r_end = e\<rparr> (scan w pf (i + 1) i i (w i) (k + 1))"
      using "1.prems" by (intro scan_new) auto
    moreover have "scan w pf (i + 1) i i (w i) (k + 1) = (Exit_ok, [])"
      using True by (intro scan_stop) simp
    ultimately show ?thesis using True "1.prems"(3) by simp
  next
    case False
    with "1.prems" have lt: "i + 1 \<le> 0x10FFFF" "0 < i + 1" by auto
    show ?thesis
    proof (cases "w i \<noteq> pw \<or> IS_BOUNDARY i")
      case True
      then have eq: "scan w pf i s e pw k =
        emit \<lparr>r_width = pw, r_start = s, r_end = e\<rparr> (scan w pf (i + 1) i i (w i) (k + 1))"
        using "1.prems" by (intro scan_new) auto
      have "fst (scan w pf (i + 1) i i (w i) (k + 1)) = Exit_ok \<and>
            snd (scan w pf (i + 1) i i (w i) (k + 1)) \<noteq> [] \<and>
            r_end (last (snd (scan w pf (i + 1) i i (w i) (k + 1)))) = 0x10FFFE"
        by (rule "1.IH"(1)) (use True "1.prems" lt in auto)
      then show ?thesis by (simp add: eq)
    next
      case False
      then have eq: "scan w pf i s e pw k = scan w pf (i + 1) s i pw k"
        using "1.prems" by (intro scan_same) auto
      have "fst (scan w pf (i + 1) s i pw k) = Exit_ok \<and>
            snd (scan w pf (i + 1) s i pw k) \<noteq> [] \<and>
            r_end (last (snd (scan w pf (i + 1) s i pw k))) = 0x10FFFE"
        by (rule "1.IH"(3)) (use False "1.prems" lt in auto)
      then show ?thesis by (simp add: eq)
    qed
  qed
qed

lemma chain_covers:
  "chain s rs \<Longrightarrow> rs \<noteq> [] \<Longrightarrow>
   (\<exists>r \<in> set rs. r_start r \<le> c \<and> c \<le> r_end r) \<longleftrightarrow> (s \<le> c \<and> c \<le> r_end (last rs))"
proof (induction rs arbitrary: s)
  case Nil then show ?case by simp
next
  case (Cons r rs)
  show ?case
  proof (cases "rs = []")
    case True
    then show ?thesis using Cons.prems by auto
  next
    case False
    have ch: "chain (r_end r + 1) rs" using Cons.prems by simp
    have le: "r_end r + 1 \<le> r_end (last rs)" using ch False
    proof (induction rs arbitrary: r)
      case Nil then show ?case by simp
    next
      case (Cons a rs)
      then show ?case by (cases "rs = []") force+
    qed
    from Cons.IH [OF ch False] show ?thesis using False Cons.prems le by auto
  qed
qed

lemma scan_boundary_start:
  "0 < i \<Longrightarrow> e = i - 1 \<Longrightarrow> i \<le> x \<Longrightarrow> x < 0x10FFFF \<Longrightarrow> IS_BOUNDARY x \<Longrightarrow> \<forall>k. \<not> pf k \<Longrightarrow>
   \<exists>r \<in> set (snd (scan w pf i s e pw k)). r_start r = x"
proof (induction w pf i s e pw k rule: scan.induct)
  case (1 w pf i s e pw k)
  have lt: "i \<le> 0x10FFFF" "0 < i + 1" "i + 1 \<le> 0x10FFFF" using "1.prems" by auto
  show ?case
  proof (cases "w i \<noteq> pw \<or> IS_BOUNDARY i")
    case True
    then have eq: "scan w pf i s e pw k =
        emit \<lparr>r_width = pw, r_start = s, r_end = e\<rparr> (scan w pf (i + 1) i i (w i) (k + 1))"
      using "1.prems" lt by (intro scan_new) auto
    show ?thesis
    proof (cases "i = x")
      case True
      let ?rest = "snd (scan w pf (i + 1) i i (w i) (k + 1))"
      have "?rest \<noteq> []" using scan_complete [OF lt(2) lt(3) _ "1.prems"(6), of i w i "w i" "k + 1"] by simp
      moreover have "chain i ?rest" using scan_chain [OF lt(2), of i i w pf "w i" "k + 1"] by simp
      ultimately have "r_start (hd ?rest) = x \<and> hd ?rest \<in> set ?rest"
        using True by (cases ?rest) auto
      then show ?thesis unfolding eq by auto
    next
      case False
      have "\<exists>r \<in> set (snd (scan w pf (i + 1) i i (w i) (k + 1))). r_start r = x"
        by (rule "1.IH"(1)) (use False True "1.prems" lt in auto)
      then show ?thesis unfolding eq by auto
    qed
  next
    case False
    then have eq: "scan w pf i s e pw k = scan w pf (i + 1) s i pw k"
      using "1.prems" lt by (intro scan_same) auto
    from False "1.prems" have ne: "i \<noteq> x" by auto
    have "\<exists>r \<in> set (snd (scan w pf (i + 1) s i pw k)). r_start r = x"
      by (rule "1.IH"(3)) (use ne False "1.prems" lt in auto)
    then show ?thesis unfolding eq .
  qed
qed

lemma scan_skip:
  assumes "\<And>c. i \<le> c \<Longrightarrow> c < j \<Longrightarrow> w c = pw \<and> \<not> IS_BOUNDARY c"
    and "0 < i" "i \<le> j" "j \<le> 0x110000" "e = i - 1"
  shows "scan w pf i s e pw k = scan w pf j s (j - 1) pw k"
  using assms
proof (induction "nat (j - i)" arbitrary: i e)
  case 0
  then show ?case by simp
next
  case (Suc n)
  then have lt: "i < j" "i \<le> 0x10FFFF" by auto
  have "scan w pf i s e pw k = scan w pf (i + 1) s i pw k"
    using Suc.prems(1) [of i] lt Suc.prems(2) by (intro scan_same) auto
  also have "\<dots> = scan w pf j s (j - 1) pw k"
    by (rule Suc.hyps(1)) (use Suc.hyps(2) Suc.prems lt in auto)
  finally show ?case .
qed

lemma const_step:
  assumes "\<And>c. a < c \<Longrightarrow> c < b \<Longrightarrow> \<not> IS_BOUNDARY c"
    and "0 \<le> a" "a < b" "b \<le> 0x10FFFF" "IS_BOUNDARY b"
  shows "scan (\<lambda>c. 1) (\<lambda>k. False) (a + 1) a a 1 k =
         emit \<lparr>r_width = 1, r_start = a, r_end = b - 1\<rparr>
           (scan (\<lambda>c. 1) (\<lambda>k. False) (b + 1) b b 1 (k + 1))"
proof -
  have "scan (\<lambda>c. 1) (\<lambda>k. False) (a + 1) a a 1 k = scan (\<lambda>c. 1) (\<lambda>k. False) b a (b - 1) 1 k"
    by (rule scan_skip) (use assms in auto)
  also have "\<dots> = emit \<lparr>r_width = 1, r_start = a, r_end = b - 1\<rparr>
           (scan (\<lambda>c. 1) (\<lambda>k. False) (b + 1) b b 1 (k + 1))"
    by (rule scan_new) (use assms in auto)
  finally show ?thesis .
qed

lemma const_output:
  "generate_width_data_main (\<lambda>c. 1) (\<lambda>k. False) =
    (Exit_ok,
     [\<lparr>r_width = 1, r_start = 0, r_end = 0x7F\<rparr>,
      \<lparr>r_width = 1, r_start = 0x80, r_end = 0x7FF\<rparr>,
      \<lparr>r_width = 1, r_start = 0x800, r_end = 0xD7FF\<rparr>,
      \<lparr>r_width = 1, r_start = 0xD800, r_end = 0xDFFF\<rparr>,
      \<lparr>r_width = 1, r_start = 0xE000, r_end = 0xF8FF\<rparr>,
      \<lparr>r_width = 1, r_start = 0xF900, r_end = 0xFFFF\<rparr>,
      \<lparr>r_width = 1, r_start = 0x10000, r_end = 0xEFFFF\<rparr>,
      \<lparr>r_width = 1, r_start = 0xF0000, r_end = 0xFFFFD\<rparr>,
      \<lparr>r_width = 1, r_start = 0xFFFFE, r_end = 0xFFFFF\<rparr>,
      \<lparr>r_width = 1, r_start = 0x100000, r_end = 0x10FFFD\<rparr>,
      \<lparr>r_width = 1, r_start = 0x10FFFE, r_end = 0x10FFFE\<rparr>])"
proof -
  let ?S = "scan (\<lambda>c. 1) (\<lambda>k. False)"
  have s0: "generate_width_data_main (\<lambda>c. 1) (\<lambda>k. False) = ?S (0 + 1) 0 0 1 0"
    by (simp add: generate_width_data_main_def scan_zero)
  have s1: "?S (0 + 1) 0 0 1 0 = emit \<lparr>r_width = 1, r_start = 0, r_end = 0x80 - 1\<rparr> (?S (0x80 + 1) 0x80 0x80 1 (0 + 1))"
    by (rule const_step) (auto simp: IS_BOUNDARY_def)
  have s2: "?S (0x80 + 1) 0x80 0x80 1 k = emit \<lparr>r_width = 1, r_start = 0x80, r_end = 0x800 - 1\<rparr> (?S (0x800 + 1) 0x800 0x800 1 (k + 1))" for k
    by (rule const_step) (auto simp: IS_BOUNDARY_def)
  have s3: "?S (0x800 + 1) 0x800 0x800 1 k = emit \<lparr>r_width = 1, r_start = 0x800, r_end = 0xD800 - 1\<rparr> (?S (0xD800 + 1) 0xD800 0xD800 1 (k + 1))" for k
    by (rule const_step) (auto simp: IS_BOUNDARY_def)
  have s4: "?S (0xD800 + 1) 0xD800 0xD800 1 k = emit \<lparr>r_width = 1, r_start = 0xD800, r_end = 0xE000 - 1\<rparr> (?S (0xE000 + 1) 0xE000 0xE000 1 (k + 1))" for k
    by (rule const_step) (auto simp: IS_BOUNDARY_def)
  have s5: "?S (0xE000 + 1) 0xE000 0xE000 1 k = emit \<lparr>r_width = 1, r_start = 0xE000, r_end = 0xF900 - 1\<rparr> (?S (0xF900 + 1) 0xF900 0xF900 1 (k + 1))" for k
    by (rule const_step) (auto simp: IS_BOUNDARY_def)
  have s6: "?S (0xF900 + 1) 0xF900 0xF900 1 k = emit \<lparr>r_width = 1, r_start = 0xF900, r_end = 0x10000 - 1\<rparr> (?S (0x10000 + 1) 0x10000 0x10000 1 (k + 1))" for k
    by (rule const_step) (auto simp: IS_BOUNDARY_def)
  have s7: "?S (0x10000 + 1) 0x10000 0x10000 1 k = emit \<lparr>r_width = 1, r_start = 0x10000, r_end = 0xF0000 - 1\<rparr> (?S (0xF0000 + 1) 0xF0000 0xF0000 1 (k + 1))" for k
    by (rule const_step) (auto simp: IS_BOUNDARY_def)
  have s8: "?S (0xF0000 + 1) 0xF0000 0xF0000 1 k = emit \<lparr>r_width = 1, r_start = 0xF0000, r_end = 0xFFFFE - 1\<rparr> (?S (0xFFFFE + 1) 0xFFFFE 0xFFFFE 1 (k + 1))" for k
    by (rule const_step) (auto simp: IS_BOUNDARY_def)
  have s9: "?S (0xFFFFE + 1) 0xFFFFE 0xFFFFE 1 k = emit \<lparr>r_width = 1, r_start = 0xFFFFE, r_end = 0x100000 - 1\<rparr> (?S (0x100000 + 1) 0x100000 0x100000 1 (k + 1))" for k
    by (rule const_step) (auto simp: IS_BOUNDARY_def)
  have s10: "?S (0x100000 + 1) 0x100000 0x100000 1 k = emit \<lparr>r_width = 1, r_start = 0x100000, r_end = 0x10FFFE - 1\<rparr> (?S (0x10FFFE + 1) 0x10FFFE 0x10FFFE 1 (k + 1))" for k
    by (rule const_step) (auto simp: IS_BOUNDARY_def)
  have s11: "?S (0x10FFFE + 1) 0x10FFFE 0x10FFFE 1 k = emit \<lparr>r_width = 1, r_start = 0x10FFFE, r_end = 0x10FFFF - 1\<rparr> (?S (0x10FFFF + 1) 0x10FFFF 0x10FFFF 1 (k + 1))" for k
    by (rule const_step) (auto simp: IS_BOUNDARY_def)
  have s12: "?S (0x10FFFF + 1) 0x10FFFF 0x10FFFF 1 k = (Exit_ok, [])" for k
    by (rule scan_stop) simp
  show ?thesis
    unfolding s0 s1 s2 s3 s4 s5 s6 s7 s8 s9 s10 s11 s12 by simp
qed

lemma scan_head:
  "0 < i \<Longrightarrow> snd (scan w pf i s e pw k) = r # rs \<Longrightarrow> r_width r = pw \<and> r_start r = s"
proof (induction w pf i s e pw k arbitrary: r rs rule: scan.induct)
  case (1 w pf i s e pw k)
  from "1.prems"(2) show ?case
    using "1.prems"(1) "1.IH"
    by (subst (asm) scan.simps) (auto simp add: Let_def split: if_splits)
qed

lemma scan_no_merge: "0 < i \<Longrightarrow> no_merge (snd (scan w pf i s e pw k))"
proof (induction w pf i s e pw k rule: scan.induct)
  case (1 w pf i s e pw k)
  show ?case
  proof (cases "i \<le> 0x10FFFF \<and> (w i \<noteq> pw \<or> IS_BOUNDARY i) \<and> \<not> pf k")
    case True
    let ?rest = "snd (scan w pf (i + 1) i i (w i) (k + 1))"
    have eq: "scan w pf i s e pw k =
        emit \<lparr>r_width = pw, r_start = s, r_end = e\<rparr> (scan w pf (i + 1) i i (w i) (k + 1))"
      using True "1.prems" by (intro scan_new) auto
    have nm: "no_merge ?rest"
      by (rule "1.IH"(1)) (use True "1.prems" in auto)
    show ?thesis
    proof (cases ?rest)
      case Nil
      then show ?thesis by (simp add: eq)
    next
      case (Cons b rs)
      have "r_width b = w i \<and> r_start b = i"
        by (rule scan_head [OF _ Cons]) (use "1.prems" in simp)
      then show ?thesis using nm Cons True by (auto simp add: eq)
    qed
  next
    case False
    then show ?thesis
      using "1.prems" "1.IH"(3)
      by (subst scan.simps) (auto simp add: Let_def)
  qed
qed

lemma chain_nth:
  "chain s rs \<Longrightarrow> l < length rs \<Longrightarrow>
   s \<le> r_start (rs ! l) \<and> r_start (rs ! l) \<le> r_end (rs ! l) \<and> (l = 0 \<longrightarrow> r_start (rs ! l) = s)"
proof (induction rs arbitrary: s l)
  case Nil then show ?case by simp
next
  case (Cons r rs)
  show ?case
  proof (cases l)
    case 0 then show ?thesis using Cons.prems by simp
  next
    case (Suc m)
    then have "r_end r + 1 \<le> r_start (rs ! m) \<and> r_start (rs ! m) \<le> r_end (rs ! m)"
      using Cons.IH [of "r_end r + 1" m] Cons.prems by simp
    then show ?thesis using Suc Cons.prems by simp
  qed
qed

lemma chain_adjacent:
  "chain s rs \<Longrightarrow> Suc l < length rs \<Longrightarrow> r_start (rs ! Suc l) = r_end (rs ! l) + 1"
proof (induction rs arbitrary: s l)
  case Nil then show ?case by simp
next
  case (Cons r rs)
  show ?case
  proof (cases l)
    case 0
    then show ?thesis using Cons.prems chain_nth [of "r_end r + 1" rs 0] by simp
  next
    case (Suc m)
    then show ?thesis using Cons.IH [of "r_end r + 1" m] Cons.prems by simp
  qed
qed

lemma chain_apart:
  "chain s rs \<Longrightarrow> j < l \<Longrightarrow> l < length rs \<Longrightarrow> r_end (rs ! j) < r_start (rs ! l)"
proof (induction rs arbitrary: s j l)
  case Nil then show ?case by simp
next
  case (Cons r rs)
  from Cons.prems obtain m where l: "l = Suc m" by (cases l) auto
  show ?case
  proof (cases j)
    case 0
    then show ?thesis using l Cons.prems chain_nth [of "r_end r + 1" rs m] by simp
  next
    case (Suc n)
    then show ?thesis using l Cons.IH [of "r_end r + 1" n m] Cons.prems by simp
  qed
qed

lemma main_chain: "chain 0 (emitted_ranges w pf)"
  unfolding emitted_ranges_def generate_width_data_main_def scan_zero
  by (rule scan_chain) simp_all

lemma no_merge_nth:
  "no_merge rs \<Longrightarrow> Suc j < length rs \<Longrightarrow> r_width (rs ! j) = r_width (rs ! Suc j) \<Longrightarrow>
   IS_BOUNDARY (r_start (rs ! Suc j))"
proof (induction rs arbitrary: j rule: no_merge.induct)
  case (1 a b rs)
  then show ?case by (cases j) auto
qed simp_all

lemma main_no_merge: "no_merge (emitted_ranges w pf)"
  unfolding emitted_ranges_def generate_width_data_main_def scan_zero
  by (rule scan_no_merge) simp

lemma main_complete:
  assumes "\<And>k. \<not> pf k"
  shows "fst (generate_width_data_main w pf) = Exit_ok"
    and "emitted_ranges w pf \<noteq> []"
    and "r_end (last (emitted_ranges w pf)) = 0x10FFFE"
  using scan_complete [of 1 0 pf w 0 "w 0" 0] assms
  unfolding emitted_ranges_def generate_width_data_main_def scan_zero by simp_all

lemma main_ends: "r \<in> set (emitted_ranges w pf) \<Longrightarrow> r_end r \<le> 0x10FFFE"
  unfolding emitted_ranges_def generate_width_data_main_def scan_zero
  by (rule scan_ends [of 1 0 r w pf 0 "w 0" 0]) simp_all

lemma chain_start_le_end: "chain s rs \<Longrightarrow> r \<in> set rs \<Longrightarrow> r_start r \<le> r_end r"
  by (induction rs arbitrary: s) auto

lemma const_emitted:
  "emitted_ranges (\<lambda>c. 1) (\<lambda>k. False) =
     [\<lparr>r_width = 1, r_start = 0, r_end = 0x7F\<rparr>,
      \<lparr>r_width = 1, r_start = 0x80, r_end = 0x7FF\<rparr>,
      \<lparr>r_width = 1, r_start = 0x800, r_end = 0xD7FF\<rparr>,
      \<lparr>r_width = 1, r_start = 0xD800, r_end = 0xDFFF\<rparr>,
      \<lparr>r_width = 1, r_start = 0xE000, r_end = 0xF8FF\<rparr>,
      \<lparr>r_width = 1, r_start = 0xF900, r_end = 0xFFFF\<rparr>,
      \<lparr>r_width = 1, r_start = 0x10000, r_end = 0xEFFFF\<rparr>,
      \<lparr>r_width = 1, r_start = 0xF0000, r_end = 0xFFFFD\<rparr>,
      \<lparr>r_width = 1, r_start = 0xFFFFE, r_end = 0xFFFFF\<rparr>,
      \<lparr>r_width = 1, r_start = 0x100000, r_end = 0x10FFFD\<rparr>,
      \<lparr>r_width = 1, r_start = 0x10FFFE, r_end = 0x10FFFE\<rparr>]"
  by (simp add: emitted_ranges_def const_output)

lemma main_covers:
  assumes "\<And>k. \<not> pf k"
  shows "(\<exists>r \<in> set (emitted_ranges w pf). r_start r \<le> c \<and> c \<le> r_end r) \<longleftrightarrow>
         (0 \<le> c \<and> c \<le> 0x10FFFE)"
  using chain_covers [OF main_chain main_complete(2) [of pf w], of c] assms
  by (simp add: main_complete(3))

lemma main_boundary_start:
  assumes "\<And>k. \<not> pf k" and "IS_BOUNDARY x" and "x \<noteq> 0x10FFFF"
  shows "\<exists>r \<in> set (emitted_ranges w pf). r_start r = x"
  unfolding emitted_ranges_def generate_width_data_main_def scan_zero
  by (rule scan_boundary_start) (use assms in \<open>auto simp add: IS_BOUNDARY_def\<close>)

lemma main_no_start_at_last: "r \<in> set (emitted_ranges w pf) \<Longrightarrow> r_start r \<le> 0x10FFFE"
  using chain_start_le_end [OF main_chain, of r w pf] main_ends [of r w pf] by simp

section \<open>The emitted ranges\<close>

text \<open>
  C1 (the code departs from the claim).  \<open>main\<close> returns right after the loop and
  writes nothing there, so the range that is pending when the scan ends is never
  written.  For every classifier, when no write fails, the program exits with 0 and
  the ranges written cover exactly the code points 0 to 0x10FFFE: the last code
  point 0x10FFFF lies in no range, and the union is not the whole of 0 to 0x10FFFF.
\<close>

theorem emitted_ranges_cover_all_but_last:
  "(\<forall>k. \<not> printf_fails k) \<Longrightarrow>
   fst (generate_width_data_main wcwidth printf_fails) = Exit_ok \<and>
   r_end (last (emitted_ranges wcwidth printf_fails)) = 0x10FFFE \<and>
   ((\<exists>r \<in> set (emitted_ranges wcwidth printf_fails). r_start r \<le> c \<and> c \<le> r_end r)
      \<longleftrightarrow> (0 \<le> c \<and> c \<le> 0x10FFFE))"
  using main_complete(1,3) [of printf_fails wcwidth] main_covers [of printf_fails wcwidth c]
  by simp

theorem emitted_ranges_cover_all_but_last_witness:
  "(\<forall>k. \<not> (\<lambda>k. False) k) \<and>
   fst (generate_width_data_main (\<lambda>c. 1) (\<lambda>k. False)) = Exit_ok \<and>
   r_end (last (emitted_ranges (\<lambda>c. 1) (\<lambda>k. False))) = 0x10FFFE \<and>
   \<not> (\<exists>r \<in> set (emitted_ranges (\<lambda>c. 1) (\<lambda>k. False)). r_start r \<le> 0x10FFFF \<and> 0x10FFFF \<le> r_end r)"
  using emitted_ranges_cover_all_but_last [of "\<lambda>k. False" "\<lambda>c. 1" "0x10FFFF"]
  by simp

text \<open>
  C2 (the code departs from the claim).  When no write fails, a mandatory boundary
  is the start of a written range if and only if it is not 0x10FFFF: the ten
  boundaries below 0x10FFFF each start a written range, and the range that starts at
  0x10FFFF is the pending one that is never written.
\<close>

theorem boundary_starts_range_unless_last:
  "(\<forall>k. \<not> printf_fails k) \<Longrightarrow> x \<in> mandatory_boundaries \<Longrightarrow>
   (\<exists>r \<in> set (emitted_ranges wcwidth printf_fails). r_start r = x) \<longleftrightarrow> x \<noteq> 0x10FFFF"
proof -
  assume nf: "\<forall>k. \<not> printf_fails k" and x: "x \<in> mandatory_boundaries"
  from x have b: "IS_BOUNDARY x"
    by (simp add: IS_BOUNDARY_def mandatory_boundaries_def)
  show ?thesis
  proof
    assume "\<exists>r \<in> set (emitted_ranges wcwidth printf_fails). r_start r = x"
    then show "x \<noteq> 0x10FFFF" using main_no_start_at_last [of _ wcwidth printf_fails] by force
  next
    assume "x \<noteq> 0x10FFFF"
    with nf b show "\<exists>r \<in> set (emitted_ranges wcwidth printf_fails). r_start r = x"
      by (intro main_boundary_start) auto
  qed
qed

theorem boundary_starts_range_unless_last_witness:
  "(\<forall>k. \<not> (\<lambda>k. False) k) \<and> 0x10FFFF \<in> mandatory_boundaries \<and> 0x80 \<in> mandatory_boundaries \<and>
   \<not> (\<exists>r \<in> set (emitted_ranges (\<lambda>c. 1) (\<lambda>k. False)). r_start r = 0x10FFFF) \<and>
   (\<exists>r \<in> set (emitted_ranges (\<lambda>c. 1) (\<lambda>k. False)). r_start r = 0x80)"
proof -
  have nf: "\<forall>k. \<not> (\<lambda>k. False) k" by simp
  have a: "(0x10FFFF :: int) \<in> mandatory_boundaries" and b: "(0x80 :: int) \<in> mandatory_boundaries"
    by (simp_all add: mandatory_boundaries_def)
  show ?thesis
    using nf a b boundary_starts_range_unless_last [OF nf a, of "\<lambda>c. 1"]
      boundary_starts_range_unless_last [OF nf b, of "\<lambda>c. 1"]
    by simp
qed

text \<open>
  C3.  Two ranges written one after the other have the same width only if the
  second one starts at a mandatory boundary.
\<close>

theorem equal_width_neighbours_split_at_boundary:
  "Suc j < length (emitted_ranges wcwidth printf_fails) \<Longrightarrow>
   r_width (emitted_ranges wcwidth printf_fails ! j) = r_width (emitted_ranges wcwidth printf_fails ! Suc j) \<Longrightarrow>
   r_start (emitted_ranges wcwidth printf_fails ! Suc j) \<in> mandatory_boundaries"
  using no_merge_nth [OF main_no_merge, of j wcwidth printf_fails]
  by (simp add: IS_BOUNDARY_def mandatory_boundaries_def)

theorem equal_width_neighbours_split_at_boundary_witness:
  "Suc 0 < length (emitted_ranges (\<lambda>c. 1) (\<lambda>k. False)) \<and>
   r_width (emitted_ranges (\<lambda>c. 1) (\<lambda>k. False) ! 0) = r_width (emitted_ranges (\<lambda>c. 1) (\<lambda>k. False) ! Suc 0) \<and>
   r_start (emitted_ranges (\<lambda>c. 1) (\<lambda>k. False) ! Suc 0) = 0x80 \<and>
   r_start (emitted_ranges (\<lambda>c. 1) (\<lambda>k. False) ! Suc 0) \<in> mandatory_boundaries"
proof -
  have l: "Suc 0 < length (emitted_ranges (\<lambda>c. 1) (\<lambda>k. False))"
    by (simp add: const_emitted)
  have w: "r_width (emitted_ranges (\<lambda>c. 1) (\<lambda>k. False) ! 0) =
           r_width (emitted_ranges (\<lambda>c. 1) (\<lambda>k. False) ! Suc 0)"
    by (simp add: const_emitted)
  show ?thesis
    using l w equal_width_neighbours_split_at_boundary [OF l w] by (simp add: const_emitted)
qed

text \<open>
  C9.  Every written range has \<open>start \<le> end\<close>; each range but the first starts
  one code point after the end of the range written before it; so the starts
  increase strictly and an earlier range ends before a later one starts.  This holds
  for every classifier, also for a run that a failing write cuts short.
\<close>

theorem emitted_ranges_increasing_adjacent:
  "l < length (emitted_ranges wcwidth printf_fails) \<Longrightarrow>
   r_start (emitted_ranges wcwidth printf_fails ! l) \<le> r_end (emitted_ranges wcwidth printf_fails ! l) \<and>
   (0 < l \<longrightarrow> r_start (emitted_ranges wcwidth printf_fails ! l) =
        r_end (emitted_ranges wcwidth printf_fails ! (l - 1)) + 1) \<and>
   (\<forall>j < l. r_start (emitted_ranges wcwidth printf_fails ! j) < r_start (emitted_ranges wcwidth printf_fails ! l) \<and>
            r_end (emitted_ranges wcwidth printf_fails ! j) < r_start (emitted_ranges wcwidth printf_fails ! l))"
proof -
  let ?out = "emitted_ranges wcwidth printf_fails"
  assume l: "l < length ?out"
  have ch: "chain 0 ?out" by (rule main_chain)
  have a: "r_start (?out ! l) \<le> r_end (?out ! l)" using chain_nth [OF ch l] by simp
  have b: "r_start (?out ! l) = r_end (?out ! (l - 1)) + 1" if "0 < l"
    using chain_adjacent [OF ch, of "l - 1"] l that by simp
  have c: "r_start (?out ! j) < r_start (?out ! l) \<and> r_end (?out ! j) < r_start (?out ! l)" if "j < l" for j
  proof -
    have "r_end (?out ! j) < r_start (?out ! l)" by (rule chain_apart [OF ch that l])
    moreover have "r_start (?out ! j) \<le> r_end (?out ! j)"
      using chain_nth [OF ch, of j] that l by simp
    ultimately show ?thesis by simp
  qed
  from a b c show ?thesis by blast
qed

theorem emitted_ranges_increasing_adjacent_witness:
  "1 < length (emitted_ranges (\<lambda>c. 1) (\<lambda>k. False)) \<and>
   emitted_ranges (\<lambda>c. 1) (\<lambda>k. False) ! 0 = \<lparr>r_width = 1, r_start = 0, r_end = 0x7F\<rparr> \<and>
   emitted_ranges (\<lambda>c. 1) (\<lambda>k. False) ! 1 = \<lparr>r_width = 1, r_start = 0x80, r_end = 0x7FF\<rparr> \<and>
   r_start (emitted_ranges (\<lambda>c. 1) (\<lambda>k. False) ! 1) \<le> r_end (emitted_ranges (\<lambda>c. 1) (\<lambda>k. False) ! 1) \<and>
   r_start (emitted_ranges (\<lambda>c. 1) (\<lambda>k. False) ! 1) = r_end (emitted_ranges (\<lambda>c. 1) (\<lambda>k. False) ! 0) + 1 \<and>
   r_start (emitted_ranges (\<lambda>c. 1) (\<lambda>k. False) ! 0) < r_start (emitted_ranges (\<lambda>c. 1) (\<lambda>k. False) ! 1)"
proof -
  have l: "1 < length (emitted_ranges (\<lambda>c. 1) (\<lambda>k. False))"
    by (simp add: const_emitted)
  show ?thesis
    using l emitted_ranges_increasing_adjacent [OF l] by (simp add: const_emitted)
qed

section \<open>The harness, line by line\<close>

text \<open>
  The conversion of a line agrees with the decoding of the specification as long as
  the line holds no null byte; the array is large enough as long as the conversion
  yields fewer than \<open>LINE_MAX\<close> wide characters.
\<close>

lemma mbs_convert_take:
  "decode_upto m dec s = Some ws \<Longrightarrow> mbs_convert dec n s = Some (take n ws)"
proof (induction n arbitrary: m s ws)
  case 0
  then show ?case by simp
next
  case (Suc n)
  show ?case
  proof (cases "s = []")
    case True
    with Suc.prems show ?thesis by (cases m) auto
  next
    case False
    with Suc.prems obtain m' where m: "m = Suc m'" by (cases m) auto
    from Suc.prems False m obtain wc used ws' where
      d: "dec s = Some (wc, used)" and r: "decode_upto m' dec (drop used s) = Some ws'"
      and ws: "ws = wc # ws'"
      by (auto split: option.splits)
    from Suc.IH [OF r] show ?thesis using False d ws by simp
  qed
qed

lemma mbs_convert_invalid:
  assumes "\<And>s wc used. dec s = Some (wc, used) \<Longrightarrow> 0 < used"
  shows "decode_upto m dec s = None \<Longrightarrow> length s \<le> m \<Longrightarrow> length s \<le> n \<Longrightarrow>
         mbs_convert dec n s = None"
proof (induction m arbitrary: s n)
  case 0
  then show ?case by simp
next
  case (Suc m)
  then have ne: "s \<noteq> []" by auto
  with Suc.prems obtain n' where n: "n = Suc n'" by (cases n) auto
  show ?case
  proof (cases "dec s")
    case None
    then show ?thesis using ne n by simp
  next
    case (Some p)
    obtain wc used where p: "p = (wc, used)" by (cases p)
    have u: "0 < used" using assms Some p by simp
    from Suc.prems(1) ne Some p have "decode_upto m dec (drop used s) = None" by simp
    moreover have "length (drop used s) \<le> m" "length (drop used s) \<le> n'"
      using u ne Suc.prems n by (cases s; simp)+
    ultimately have "mbs_convert dec n' (drop used s) = None" by (rule Suc.IH)
    then show ?thesis using ne n Some p by simp
  qed
qed

lemma decode_upto_length:
  assumes "\<And>s wc used. dec s = Some (wc, used) \<Longrightarrow> 0 < used"
  shows "decode_upto m dec s = Some ws \<Longrightarrow> length ws \<le> length s"
proof (induction m arbitrary: s ws)
  case 0
  then show ?case by (auto split: if_splits)
next
  case (Suc m)
  show ?case
  proof (cases "s = []")
    case True
    with Suc.prems show ?thesis by simp
  next
    case False
    from Suc.prems False obtain wc used ws' where
      d: "dec s = Some (wc, used)" and r: "decode_upto m dec (drop used s) = Some ws'"
      and ws: "ws = wc # ws'"
      by (auto split: option.splits)
    have "0 < used" using assms d by simp
    then have "length (drop used s) < length s" using False by (cases s) simp_all
    with Suc.IH [OF r] ws show ?thesis by simp
  qed
qed

lemma decode_upto_no_null:
  assumes "\<And>s wc used. dec s = Some (wc, used) \<Longrightarrow> s \<noteq> [] \<Longrightarrow> hd s \<noteq> 0 \<Longrightarrow> wc \<noteq> 0"
  shows "decode_upto m dec s = Some ws \<Longrightarrow> 0 \<notin> set s \<Longrightarrow> 0 \<notin> set ws"
proof (induction m arbitrary: s ws)
  case 0
  then show ?case by (auto split: if_splits)
next
  case (Suc m)
  show ?case
  proof (cases "s = []")
    case True
    with Suc.prems show ?thesis by simp
  next
    case False
    from Suc.prems False obtain wc used ws' where
      d: "dec s = Some (wc, used)" and r: "decode_upto m dec (drop used s) = Some ws'"
      and ws: "ws = wc # ws'"
      by (auto split: option.splits)
    have "hd s \<noteq> 0" using False Suc.prems(2) by (cases s) auto
    then have "wc \<noteq> 0" using assms [OF d False] by simp
    moreover have "0 \<notin> set (drop used s)" using Suc.prems(2) by (auto dest: in_set_dropD)
    ultimately show ?thesis using Suc.IH [OF r] ws by simp
  qed
qed

lemma wcswidth_sum:
  "0 \<notin> set cs \<Longrightarrow>
   wcswidth wcw (cs @ rest) (length cs) acc =
     Inr (if - 1 \<in> wcw ` set cs then - 1 else acc + sum_list (map wcw cs))"
proof (induction cs arbitrary: acc)
  case Nil
  then show ?case by (cases rest) simp_all
next
  case (Cons c cs)
  then show ?case by (simp add: algebra_simps)
qed

lemma unat_count_minus_1:
  "0 < n \<Longrightarrow> n < 2 ^ 64 \<Longrightarrow> unat (word_of_nat n - 1 :: size_t) = n - 1"
proof -
  assume n: "0 < n" "n < 2 ^ 64"
  then obtain m where m: "n = Suc m" by (cases n) auto
  have "(word_of_nat n - 1 :: size_t) = word_of_nat m" by (simp add: m)
  moreover have "unat (word_of_nat m :: size_t) = m" using n m by (simp add: unat_of_nat)
  ultimately show ?thesis using m by simp
qed

lemma unat_error_value: "unat (- 1 :: size_t) = 2 ^ 64 - 1"
  by (simp add: unsigned_minus_1_eq_mask mask_eq_exp_minus_1)

lemma count_not_error: "n < 2 ^ 64 - 1 \<Longrightarrow> (word_of_nat n :: size_t) \<noteq> - 1"
proof
  assume n: "n < 2 ^ 64 - 1" and e: "(word_of_nat n :: size_t) = - 1"
  from e have "unat (word_of_nat n :: size_t) = unat (- 1 :: size_t)" by simp
  then show False using n by (simp add: unat_of_nat unat_error_value)
qed

lemma takeWhile_no_null: "0 \<notin> set line \<Longrightarrow> takeWhile (\<lambda>b. b \<noteq> 0) line = line"
  for line :: "byte list"
  by (induction line) auto

lemma runes_larger: "sane_libc L \<Longrightarrow> LINE_MAX L \<le> sizeof_runes L"
  by (cases "sizeof_wchar_t L") (simp_all add: sane_libc_def sizeof_runes_def)

lemma line_result_converted:
  assumes sane: "sane_libc L"
    and conv: "mbs_convert (decode_char L) (sizeof_runes L) (takeWhile (\<lambda>b. b \<noteq> 0) line) = Some ws"
    and len: "length ws < LINE_MAX L"
    and nonull: "0 \<notin> set (butlast ws)"
  shows "line_result L line = Inr (total_width (char_width L) (butlast ws))"
proof -
  have n: "LINE_MAX L \<le> sizeof_runes L" by (rule runes_larger [OF sane])
  have big: "sizeof_runes L < 2 ^ 64" using sane by (simp add: sane_libc_def)
  have lt: "length ws < sizeof_runes L" using len n by simp
  have mb: "mbstowcs L line (sizeof_runes L) = (word_of_nat (length ws), ws @ [0])"
    using conv lt by (simp add: mbstowcs_def)
  have ne: "(word_of_nat (length ws) :: size_t) \<noteq> - 1"
    by (rule count_not_error) (use lt big in simp)
  have w: "wcswidth (char_width L) (ws @ [0]) (unat (word_of_nat (length ws) - 1 :: size_t)) 0 =
           Inr (total_width (char_width L) (butlast ws))"
  proof (cases "ws = []")
    case True
    then show ?thesis by (simp add: total_width_def unat_error_value)
  next
    case False
    then have u: "unat (word_of_nat (length ws) - 1 :: size_t) = length (butlast ws)"
      using unat_count_minus_1 [of "length ws"] lt big by simp
    have split: "ws @ [0] = butlast ws @ ([last ws] @ [0])" using False by simp
    show ?thesis
      unfolding u split using wcswidth_sum [OF nonull] by (simp add: total_width_def)
  qed
  show ?thesis
    using len ne w by (simp add: line_result_def mb)
qed

lemma line_result_decodable:
  assumes sane: "sane_libc L" and nul: "0 \<notin> set line" and len: "length line < LINE_MAX L"
    and dec: "decode_line (decode_char L) line = Some ws"
  shows "line_result L line = Inr (total_width (char_width L) (butlast ws))"
proof -
  have used: "\<And>s wc used. decode_char L s = Some (wc, used) \<Longrightarrow> 0 < used"
    using sane by (auto simp add: sane_libc_def)
  have nn: "\<And>s wc used. decode_char L s = Some (wc, used) \<Longrightarrow> s \<noteq> [] \<Longrightarrow> hd s \<noteq> 0 \<Longrightarrow> wc \<noteq> 0"
    using sane by (auto simp add: sane_libc_def)
  have le: "length ws \<le> length line"
    using decode_upto_length [where dec = "decode_char L" and m = "length line" and s = line and ws = ws, OF used] dec by (simp add: decode_line_def)
  have z: "0 \<notin> set ws"
    using decode_upto_no_null [where dec = "decode_char L" and m = "length line" and s = line and ws = ws, OF nn] dec nul by (simp add: decode_line_def)
  have "mbs_convert (decode_char L) (sizeof_runes L) line = Some (take (sizeof_runes L) ws)"
    using dec by (intro mbs_convert_take) (simp add: decode_line_def)
  moreover have "length ws \<le> sizeof_runes L" using le len runes_larger [OF sane] by simp
  ultimately have conv: "mbs_convert (decode_char L) (sizeof_runes L) (takeWhile (\<lambda>b. b \<noteq> 0) line) = Some ws"
    by (simp add: takeWhile_no_null [OF nul])
  show ?thesis
    by (rule line_result_converted [OF sane conv]) (use le len z in \<open>auto dest: in_set_butlastD\<close>)
qed

lemma mbs_prefix_length:
  assumes "\<And>s wc used. dec s = Some (wc, used) \<Longrightarrow> 0 < used"
  shows "length (mbs_prefix dec n s) \<le> length s"
proof (induction n arbitrary: s)
  case 0
  then show ?case by simp
next
  case (Suc n)
  show ?case
  proof (cases "s = [] \<or> dec s = None")
    case True
    then show ?thesis by auto
  next
    case False
    then obtain wc used where d: "dec s = Some (wc, used)" by auto
    have "0 < used" using assms d by simp
    then have "length (drop used s) < length s" using False by (cases s) simp_all
    with Suc.IH [of "drop used s"] show ?thesis using False d by simp
  qed
qed

lemma line_result_failed:
  "mbs_convert (decode_char L) (sizeof_runes L) (takeWhile (\<lambda>b. b \<noteq> 0) line) = None \<Longrightarrow>
   line_result L line =
     (if LINE_MAX L < length (mbs_prefix (decode_char L) (sizeof_runes L) (takeWhile (\<lambda>b. b \<noteq> 0) line))
      then Inl Runes_overrun else Inr (- 1))"
  by (simp add: line_result_def mbstowcs_def)

lemma line_result_string:
  "line_result L (takeWhile (\<lambda>b. b \<noteq> 0) line) = line_result L line"
  by (simp add: line_result_def mbstowcs_def cong: option.case_cong)

lemma line_result_undecodable:
  assumes sane: "sane_libc L" and nul: "0 \<notin> set line" and len: "length line < LINE_MAX L"
    and dec: "decode_line (decode_char L) line = None"
  shows "line_result L line = Inr (- 1)"
proof -
  have used: "\<And>s wc used. decode_char L s = Some (wc, used) \<Longrightarrow> 0 < used"
    using sane by (auto simp add: sane_libc_def)
  have "length (mbs_prefix (decode_char L) (sizeof_runes L) line) \<le> length line"
    by (rule mbs_prefix_length) (rule used)
  then have fits: "length (mbs_prefix (decode_char L) (sizeof_runes L) line) \<le> LINE_MAX L"
    using len by simp
  have "mbs_convert (decode_char L) (sizeof_runes L) line = None"
    by (rule mbs_convert_invalid [where dec = "decode_char L" and m = "length line", OF used])
       (use dec len runes_larger [OF sane] in \<open>simp_all add: decode_line_def\<close>)
  then show ?thesis
    using fits by (simp add: line_result_failed takeWhile_no_null [OF nul])
qed

lemma line_result_overrun:
  assumes "0 < LINE_MAX L" and "2 \<le> sizeof_wchar_t L" and nul: "0 \<notin> set line"
    and dec: "decode_line (decode_char L) line = Some ws"
    and long: "LINE_MAX L \<le> length ws"
  shows "line_result L line = Inl Runes_overrun"
proof -
  have n: "LINE_MAX L < sizeof_runes L"
    using assms(1,2) by (cases "sizeof_wchar_t L") (auto simp add: sizeof_runes_def)
  have conv: "mbs_convert (decode_char L) (sizeof_runes L) (takeWhile (\<lambda>b. b \<noteq> 0) line) =
              Some (take (sizeof_runes L) ws)"
    unfolding takeWhile_no_null [OF nul]
    using dec by (intro mbs_convert_take) (simp add: decode_line_def)
  show ?thesis
    using n long by (simp add: line_result_def mbstowcs_def conv min_def)
qed

lemma getline_split_eol:
  "0x0A \<notin> set xs \<Longrightarrow> getline_split (xs @ 0x0A # rest) = (xs @ [0x0A], rest)"
  by (induction xs) auto

lemma getline_split_no_eol: "0x0A \<notin> set xs \<Longrightarrow> getline_split xs = (xs, [])"
  by (induction xs) auto



lemma read_loop_eof:
  "read_loop L pf se [] k = (if se then Exit_fail Getline_failed else Exit_ok, [])"
  by (subst read_loop.simps) (simp add: getline_def)

lemma read_loop_line:
  "getline input = Some (line, rest) \<Longrightarrow> line_result L line = Inr v \<Longrightarrow>
   read_loop L pf se input k =
     (if pf k then (Exit_fail Printf_failed, [])
      else emit v (read_loop L pf se rest (k + 1)))"
  by (subst read_loop.simps) simp

lemma read_loop_fault:
  "getline input = Some (line, rest) \<Longrightarrow> line_result L line = Inl f \<Longrightarrow>
   read_loop L pf se input k = (Undefined f, [])"
  by (subst read_loop.simps) simp

lemma mbs_convert_no_null:
  assumes "\<And>s wc used. dec s = Some (wc, used) \<Longrightarrow> s \<noteq> [] \<Longrightarrow> hd s \<noteq> 0 \<Longrightarrow> wc \<noteq> 0"
  shows "mbs_convert dec n s = Some ws \<Longrightarrow> 0 \<notin> set s \<Longrightarrow> 0 \<notin> set ws"
proof (induction n arbitrary: s ws)
  case 0
  then show ?case by simp
next
  case (Suc n)
  show ?case
  proof (cases "s = []")
    case True
    with Suc.prems show ?thesis by simp
  next
    case False
    from Suc.prems False obtain wc used ws' where
      d: "dec s = Some (wc, used)" and r: "mbs_convert dec n (drop used s) = Some ws'"
      and ws: "ws = wc # ws'"
      by (auto split: option.splits)
    have "hd s \<noteq> 0" using False Suc.prems(2) by (cases s) auto
    then have "wc \<noteq> 0" using assms [OF d False] by simp
    moreover have "0 \<notin> set (drop used s)" using Suc.prems(2) by (auto dest: in_set_dropD)
    ultimately show ?thesis using Suc.IH [OF r] ws by simp
  qed
qed

lemma line_result_fits:
  assumes sane: "sane_libc L"
    and conv: "mbs_convert (decode_char L) (sizeof_runes L) (takeWhile (\<lambda>b. b \<noteq> 0) line) = Some ws"
    and len: "length ws < LINE_MAX L"
  shows "line_result L line = Inr (total_width (char_width L) (butlast ws))"
proof -
  have nn: "\<And>s wc used. decode_char L s = Some (wc, used) \<Longrightarrow> s \<noteq> [] \<Longrightarrow> hd s \<noteq> 0 \<Longrightarrow> wc \<noteq> 0"
    using sane by (auto simp add: sane_libc_def)
  have "0 \<notin> set (takeWhile (\<lambda>b. b \<noteq> 0) line)" by (auto dest: set_takeWhileD)
  then have "0 \<notin> set ws"
    using mbs_convert_no_null [where dec = "decode_char L", OF nn conv] by simp
  then have "0 \<notin> set (butlast ws)" by (auto dest: in_set_butlastD)
  then show ?thesis by (rule line_result_converted [OF sane conv len])
qed

lemma ascii_decode_upto:
  "\<forall>b \<in> set s. b < 0x80 \<Longrightarrow> length s \<le> m \<Longrightarrow> decode_upto m ascii_decode s = Some (map uint s)"
proof (induction m arbitrary: s)
  case 0
  then show ?case by simp
next
  case (Suc m)
  then show ?case by (cases s) simp_all
qed

lemma ascii_decode_line:
  "\<forall>b \<in> set s. b < 0x80 \<Longrightarrow> decode_line ascii_decode s = Some (map uint s)"
  by (simp add: decode_line_def ascii_decode_upto)

lemma sane_ascii_libc: "sane_libc ascii_libc"
proof -
  have "0 < used \<and> (s \<noteq> [] \<and> hd s \<noteq> 0 \<longrightarrow> wc \<noteq> 0)"
    if "ascii_decode s = Some (wc, used)" for s wc used
    using that by (cases s) (auto split: if_splits simp add: uint_0_iff)
  then show ?thesis
    by (simp add: sane_libc_def ascii_libc_def sizeof_runes_def)
qed

lemma starts_plain_run: "starts plain_run"
  by (simp add: starts_def plain_run_def)

lemma main_plain_run:
  "wcswidths_main L plain_run input = read_loop L (\<lambda>k. False) False input 0"
  by (simp add: wcswidths_main_def plain_run_def)

lemma main_started:
  "starts S \<Longrightarrow> wcswidths_main L S input = read_loop L (stdout_fails S) (stdin_error S) input 0"
  by (auto simp add: wcswidths_main_def starts_def)

lemma ascii_line_result:
  fixes line :: "byte list"
  defines "str \<equiv> takeWhile (\<lambda>b. b \<noteq> 0) line"
  assumes "\<forall>b \<in> set str. b < 0x80" and "length str < 2048"
  shows "line_result ascii_libc line = Inr (total_width ascii_width (butlast (map uint str)))"
proof -
  have "decode_upto (length str) ascii_decode str = Some (map uint str)"
    using assms(2) by (simp add: ascii_decode_upto)
  then have "mbs_convert ascii_decode (sizeof_runes ascii_libc) str =
             Some (take (sizeof_runes ascii_libc) (map uint str))"
    by (rule mbs_convert_take)
  then have conv: "mbs_convert (decode_char ascii_libc) (sizeof_runes ascii_libc)
                     (takeWhile (\<lambda>b. b \<noteq> 0) line) = Some (map uint str)"
    using assms(3) by (simp add: str_def ascii_libc_def sizeof_runes_def)
  have "0 \<notin> set (map uint str)"
    by (auto simp add: str_def uint_0_iff dest: set_takeWhileD)
  then have nn: "0 \<notin> set (butlast (map uint str))" by (auto dest: in_set_butlastD)
  have "line_result ascii_libc line =
        Inr (total_width (char_width ascii_libc) (butlast (map uint str)))"
    by (rule line_result_converted [OF sane_ascii_libc conv _ nn])
       (use assms(3) in \<open>simp add: ascii_libc_def\<close>)
  then show ?thesis by (simp add: ascii_libc_def)
qed

lemma line_A_eol: "line_result ascii_libc [0x41, 0x0A] = Inr 1"
  by (subst ascii_line_result) (simp_all add: total_width_def ascii_width_def)

lemma line_bad_eol: "line_result ascii_libc [0xFF, 0x0A] = Inr (- 1)"
  by (rule line_result_undecodable [OF sane_ascii_libc])
     (simp_all add: ascii_libc_def decode_line_def)

text \<open>
  An invalid byte behind more than \<open>LINE_MAX\<close> characters: the conversion fails, and
  it has overrun \<open>runes\<close> before it fails.
\<close>

lemma ascii_stops_at_invalid:
  "\<forall>b \<in> set xs. b < 0x80 \<Longrightarrow> \<not> bad < 0x80 \<Longrightarrow> length xs < n \<Longrightarrow>
   mbs_convert ascii_decode n (xs @ bad # rest) = None \<and>
   mbs_prefix ascii_decode n (xs @ bad # rest) = map uint xs"
proof (induction xs arbitrary: n)
  case Nil
  then show ?case by (cases n) simp_all
next
  case (Cons x xs)
  then obtain m where n: "n = Suc m" by (cases n) auto
  with Cons.prems have "length xs < m" by simp
  with Cons.IH [of m] Cons.prems show ?case by (simp add: n)
qed

lemma invalid_byte_behind_long_prefix_overruns:
  "line_result ascii_libc (replicate 2049 0x41 @ [0xFF, 0x0A]) = Inl Runes_overrun"
proof -
  have nz: "takeWhile (\<lambda>b. b \<noteq> 0) (replicate 2049 0x41 @ [0xFF, 0x0A :: byte]) =
            replicate 2049 0x41 @ 0xFF # [0x0A]"
    by (rule takeWhile_no_null) simp
  have "mbs_convert ascii_decode 8192 (replicate 2049 0x41 @ 0xFF # [0x0A]) = None \<and>
        mbs_prefix ascii_decode 8192 (replicate 2049 0x41 @ 0xFF # [0x0A]) =
          map uint (replicate 2049 (0x41 :: byte))"
    by (rule ascii_stops_at_invalid) simp_all
  then show ?thesis
    by (simp add: line_result_failed nz ascii_libc_def sizeof_runes_def)
qed

lemma read_loop_ends:
  "fst (read_loop L pf se input k) = Exit_fail d \<Longrightarrow>
   (d = Getline_failed \<and> se) \<or> (d = Printf_failed \<and> (\<exists>j. pf j))"
proof (induction L pf se input k rule: read_loop.induct)
  case (1 L pf se input k)
  from "1.prems" show ?case
    using "1.IH"
    by (subst (asm) read_loop.simps)
       (auto split: option.splits sum.splits if_splits prod.splits)
qed



lemma getline_eol:
  "0x0A \<notin> set line \<Longrightarrow> getline (line @ 0x0A # rest) = Some (line @ [0x0A], rest)"
  by (simp add: getline_def getline_split_eol)

lemma getline_no_eol:
  "line \<noteq> [] \<Longrightarrow> 0x0A \<notin> set line \<Longrightarrow> getline line = Some (line, [])"
  by (simp add: getline_def getline_split_no_eol)

lemma read_loop_written:
  "getline input = Some (line, rest) \<Longrightarrow> line_result L line = Inr v \<Longrightarrow> \<not> pf k \<Longrightarrow>
   read_loop L pf se input k = emit v (read_loop L pf se rest (Suc k))"
  by (simp add: read_loop_line)

lemma read_loop_write_fails:
  "getline input = Some (line, rest) \<Longrightarrow> line_result L line = Inr v \<Longrightarrow> pf k \<Longrightarrow>
   read_loop L pf se input k = (Exit_fail Printf_failed, [])"
  by (simp add: read_loop_line)

lemma getline_A: "getline [0x41, 0x0A] = Some ([0x41, 0x0A], [])"
  by (simp add: getline_def)

lemma second_line_written:
  "read_loop ascii_libc (\<lambda>k. False) False [0x41, 0x0A] (Suc 0) = (Exit_ok, [1])"
  by (simp add: read_loop_written [OF getline_A line_A_eol] read_loop_eof)

lemma second_write_fails:
  "read_loop ascii_libc (\<lambda>k. k = Suc 0) False [0x41, 0x0A] (Suc 0) = (Exit_fail Printf_failed, [])"
  by (simp add: read_loop_write_fails [OF getline_A line_A_eol])

lemma read_loop_one_line:
  "getline input = Some (line, []) \<Longrightarrow> line_result L line = Inr v \<Longrightarrow> \<not> pf k \<Longrightarrow>
   read_loop L pf se input k = (if se then Exit_fail Getline_failed else Exit_ok, [v])"
  by (simp add: read_loop_line read_loop_eof)

lemma plain_one_line:
  "getline input = Some (line, []) \<Longrightarrow> line_result ascii_libc line = Inr v \<Longrightarrow>
   wcswidths_main ascii_libc plain_run input = (Exit_ok, [v])"
  by (simp add: main_plain_run read_loop_one_line)

lemma line_A_nul_B: "line_result ascii_libc [0x41, 0, 0x42, 0x0A] = Inr 0"
  by (subst ascii_line_result) (simp_all add: total_width_def ascii_width_def)

lemma line_A_B_nul_bad: "line_result ascii_libc [0x41, 0x42, 0, 0xFF, 0x0A] = Inr 1"
  by (subst ascii_line_result) (simp_all add: total_width_def ascii_width_def)

lemma line_nul_bad: "line_result ascii_libc [0, 0xFF, 0x0A] = Inr 0"
  by (subst ascii_line_result) (simp_all add: total_width_def ascii_width_def)




section \<open>The harness: what it writes\<close>

text \<open>
  C5 (the code departs from the claim).  \<open>mbstowcs\<close> is allowed
  \<open>sizeof(runes)\<close> wide characters, the size of the array in bytes, and the array
  has \<open>LINE_MAX\<close> elements.  Where \<open>wchar_t\<close> has two bytes or more, every line that
  holds \<open>LINE_MAX\<close> characters or more, its newline counted, makes \<open>mbstowcs\<close> store
  past the end of \<open>runes\<close>: the run has no defined behaviour from there on, and
  nothing is written for this line or the lines after it.
\<close>

theorem long_line_overruns_runes:
  "0 < LINE_MAX L \<Longrightarrow> 2 \<le> sizeof_wchar_t L \<Longrightarrow> starts S \<Longrightarrow>
   0 \<notin> set line \<Longrightarrow> 0x0A \<notin> set line \<Longrightarrow>
   decode_line (decode_char L) (line @ [0x0A]) = Some ws \<Longrightarrow> LINE_MAX L \<le> length ws \<Longrightarrow>
   wcswidths_main L S (line @ 0x0A # rest) = (Undefined Runes_overrun, [])"
proof -
  assume a: "0 < LINE_MAX L" "2 \<le> sizeof_wchar_t L" and s: "starts S"
    and n: "0 \<notin> set line" and e: "0x0A \<notin> set line"
    and d: "decode_line (decode_char L) (line @ [0x0A]) = Some ws" and l: "LINE_MAX L \<le> length ws"
  have "line_result L (line @ [0x0A]) = Inl Runes_overrun"
    by (rule line_result_overrun [OF a _ d l]) (use n in simp)
  with getline_eol [OF e, of rest]
  have "read_loop L (stdout_fails S) (stdin_error S) (line @ 0x0A # rest) 0 =
        (Undefined Runes_overrun, [])"
    by (rule read_loop_fault)
  then show ?thesis by (simp add: main_started [OF s])
qed

theorem long_line_overruns_runes_witness:
  "0 < LINE_MAX ascii_libc \<and> 2 \<le> sizeof_wchar_t ascii_libc \<and> starts plain_run \<and>
   0 \<notin> set (replicate 2048 (0x41 :: byte)) \<and> 0x0A \<notin> set (replicate 2048 (0x41 :: byte)) \<and>
   decode_line (decode_char ascii_libc) (replicate 2048 0x41 @ [0x0A]) =
     Some (replicate 2048 0x41 @ [0x0A]) \<and>
   LINE_MAX ascii_libc \<le> length (replicate 2048 (0x41 :: int) @ [0x0A]) \<and>
   wcswidths_main ascii_libc plain_run (replicate 2048 0x41 @ 0x0A # [0x42, 0x0A]) =
     (Undefined Runes_overrun, [])"
proof -
  have a: "0 < LINE_MAX ascii_libc" "2 \<le> sizeof_wchar_t ascii_libc"
    by (simp_all add: ascii_libc_def)
  have n: "0 \<notin> set (replicate 2048 (0x41 :: byte))" and e: "0x0A \<notin> set (replicate 2048 (0x41 :: byte))"
    by simp_all
  have d: "decode_line (decode_char ascii_libc) (replicate 2048 0x41 @ [0x0A]) =
             Some (replicate 2048 0x41 @ [0x0A])"
    by (simp add: ascii_libc_def ascii_decode_line)
  have l: "LINE_MAX ascii_libc \<le> length (replicate 2048 (0x41 :: int) @ [0x0A])"
    by (simp add: ascii_libc_def)
  show ?thesis
    using a n e d l long_line_overruns_runes [OF a starts_plain_run n e d l, of "[0x42, 0x0A]"]
      starts_plain_run
    by simp
qed

text \<open>
  C6, as stated, fails.  What the harness converts is the line up to its first null
  byte, so a decoding failure behind a null byte goes unseen: the line
  \<open>A B NUL 0xFF newline\<close> has no decoding, and the harness writes 1, the width of
  \<open>A\<close>, not -1.
\<close>

theorem nul_byte_hides_decode_failure:
  "decode_line (decode_char ascii_libc) [0x41, 0x42, 0, 0xFF, 0x0A] = None \<and>
   wcswidths_main ascii_libc plain_run [0x41, 0x42, 0, 0xFF, 0x0A] = (Exit_ok, [1]) \<and>
   snd (wcswidths_main ascii_libc plain_run [0x41, 0x42, 0, 0xFF, 0x0A]) \<noteq> [- 1]"
proof -
  have a: "decode_line (decode_char ascii_libc) [0x41, 0x42, 0, 0xFF, 0x0A] = None"
    by (simp add: ascii_libc_def decode_line_def)
  have "getline [0x41, 0x42, 0, 0xFF, 0x0A] = Some ([0x41, 0x42, 0, 0xFF, 0x0A], [])"
    by (simp add: getline_def)
  then have b: "wcswidths_main ascii_libc plain_run [0x41, 0x42, 0, 0xFF, 0x0A] = (Exit_ok, [1])"
    using line_A_B_nul_bad by (rule plain_one_line)
  show ?thesis unfolding a b by simp
qed

text \<open>
  C6, amended.  In the loop, a line whose bytes up to the first null byte (all of
  them when it holds none) are fewer than \<open>LINE_MAX\<close> and have no decoding gets the
  output -1, and the loop goes on with the rest of the input, unless the write of
  that -1 fails.  The loop ends with exit code 1 only after a read error on standard
  input or a failed write.
\<close>

theorem decode_failure_is_local:
  "(sane_libc L \<longrightarrow> getline input = Some (line, rest) \<longrightarrow>
    decode_line (decode_char L) (takeWhile (\<lambda>b. b \<noteq> 0) line) = None \<longrightarrow>
    length (takeWhile (\<lambda>b. b \<noteq> 0) line) < LINE_MAX L \<longrightarrow>
      read_loop L pf se input k =
        (if pf k then (Exit_fail Printf_failed, [])
         else emit (- 1) (read_loop L pf se rest (k + 1)))) \<and>
   (exit_code (fst (read_loop L pf se input k)) = Some 1 \<longrightarrow>
      (fst (read_loop L pf se input k) = Exit_fail Getline_failed \<and> se) \<or>
      (fst (read_loop L pf se input k) = Exit_fail Printf_failed \<and> (\<exists>j. pf j)))"
proof (intro conjI impI)
  assume sane: "sane_libc L" and g: "getline input = Some (line, rest)"
    and f: "decode_line (decode_char L) (takeWhile (\<lambda>b. b \<noteq> 0) line) = None"
    and l: "length (takeWhile (\<lambda>b. b \<noteq> 0) line) < LINE_MAX L"
  have "0 \<notin> set (takeWhile (\<lambda>b. b \<noteq> 0) line)" by (auto dest: set_takeWhileD)
  then have "line_result L (takeWhile (\<lambda>b. b \<noteq> 0) line) = Inr (- 1)"
    using l f by (rule line_result_undecodable [OF sane])
  then have "line_result L line = Inr (- 1)" by (simp add: line_result_string)
  with g show "read_loop L pf se input k =
        (if pf k then (Exit_fail Printf_failed, [])
         else emit (- 1) (read_loop L pf se rest (k + 1)))"
    by (rule read_loop_line)
next
  assume "exit_code (fst (read_loop L pf se input k)) = Some 1"
  then obtain d where d: "fst (read_loop L pf se input k) = Exit_fail d"
    by (cases "fst (read_loop L pf se input k)") auto
  from read_loop_ends [OF d] d
  show "(fst (read_loop L pf se input k) = Exit_fail Getline_failed \<and> se) \<or>
        (fst (read_loop L pf se input k) = Exit_fail Printf_failed \<and> (\<exists>j. pf j))"
    by auto
qed

theorem decode_failure_is_local_witness:
  "sane_libc ascii_libc \<and>
   getline [0xFF, 0x0A, 0x41, 0x0A] = Some ([0xFF, 0x0A], [0x41, 0x0A]) \<and>
   decode_line (decode_char ascii_libc) (takeWhile (\<lambda>b. b \<noteq> 0) [0xFF, 0x0A]) = None \<and>
   length (takeWhile (\<lambda>b. b \<noteq> 0) [0xFF, 0x0A :: byte]) < LINE_MAX ascii_libc \<and>
   wcswidths_main ascii_libc plain_run [0xFF, 0x0A, 0x41, 0x0A] = (Exit_ok, [- 1, 1]) \<and>
   exit_code (fst (read_loop ascii_libc (\<lambda>k. k = 1) False [0xFF, 0x0A, 0x41, 0x0A] 0)) = Some 1 \<and>
   fst (read_loop ascii_libc (\<lambda>k. k = 1) False [0xFF, 0x0A, 0x41, 0x0A] 0) = Exit_fail Printf_failed \<and>
   (\<exists>j. (\<lambda>k. k = (1 :: nat)) j)"
proof -
  have g: "getline [0xFF, 0x0A, 0x41, 0x0A] = Some ([0xFF, 0x0A], [0x41, 0x0A])"
    by (simp add: getline_def)
  have f: "decode_line (decode_char ascii_libc) (takeWhile (\<lambda>b. b \<noteq> 0) [0xFF, 0x0A]) = None"
    by (simp add: ascii_libc_def decode_line_def)
  have l: "length (takeWhile (\<lambda>b. b \<noteq> 0) [0xFF, 0x0A :: byte]) < LINE_MAX ascii_libc"
    by (simp add: ascii_libc_def)
  have x: "exit_code (fst (read_loop ascii_libc (\<lambda>k. k = 1) False [0xFF, 0x0A, 0x41, 0x0A] 0)) = Some 1"
    by (simp add: read_loop_written [OF g line_bad_eol] second_write_fails)
  have run: "read_loop ascii_libc (\<lambda>k. False) False [0xFF, 0x0A, 0x41, 0x0A] 0 =
             emit (- 1) (read_loop ascii_libc (\<lambda>k. False) False [0x41, 0x0A] (0 + 1))"
    using decode_failure_is_local [of ascii_libc "[0xFF, 0x0A, 0x41, 0x0A]" "[0xFF, 0x0A]"
        "[0x41, 0x0A]" "\<lambda>k. False" False 0] sane_ascii_libc g f l
    by presburger
  have ends: "(fst (read_loop ascii_libc (\<lambda>k. k = 1) False [0xFF, 0x0A, 0x41, 0x0A] 0) = Exit_fail Getline_failed \<and> False) \<or>
      (fst (read_loop ascii_libc (\<lambda>k. k = 1) False [0xFF, 0x0A, 0x41, 0x0A] 0) = Exit_fail Printf_failed \<and> (\<exists>j. (\<lambda>k. k = (1 :: nat)) j))"
    using decode_failure_is_local [of ascii_libc "[0xFF, 0x0A, 0x41, 0x0A]" "[0xFF, 0x0A]"
        "[0x41, 0x0A]" "\<lambda>k. k = 1" False 0] x
    by blast
  have m: "wcswidths_main ascii_libc plain_run [0xFF, 0x0A, 0x41, 0x0A] = (Exit_ok, [- 1, 1])"
    unfolding main_plain_run run by (simp add: second_line_written)
  from sane_ascii_libc g f l m x ends show ?thesis by blast
qed

text \<open>
  C7, as stated, fails.  A null byte ends the string that \<open>mbstowcs\<close> converts: the
  line \<open>A NUL B newline\<close> decodes to four code points, the first three of total
  width 2, and the harness writes 0; the line \<open>NUL 0xFF newline\<close> holds an
  undecodable byte and the harness writes 0, not -1.
\<close>

theorem nul_byte_cuts_line_short:
  "decode_line (decode_char ascii_libc) [0x41, 0, 0x42, 0x0A] = Some [0x41, 0, 0x42, 0x0A] \<and>
   total_width (char_width ascii_libc) (butlast [0x41, 0, 0x42, 0x0A]) = 2 \<and>
   wcswidths_main ascii_libc plain_run [0x41, 0, 0x42, 0x0A] = (Exit_ok, [0]) \<and>
   decode_line (decode_char ascii_libc) [0, 0xFF, 0x0A] = None \<and>
   wcswidths_main ascii_libc plain_run [0, 0xFF, 0x0A] = (Exit_ok, [0])"
proof -
  have "getline [0x41, 0, 0x42, 0x0A] = Some ([0x41, 0, 0x42, 0x0A], [])"
    by (simp add: getline_def)
  then have a: "wcswidths_main ascii_libc plain_run [0x41, 0, 0x42, 0x0A] = (Exit_ok, [0])"
    using line_A_nul_B by (rule plain_one_line)
  have "getline [0, 0xFF, 0x0A] = Some ([0, 0xFF, 0x0A], [])"
    by (simp add: getline_def)
  then have b: "wcswidths_main ascii_libc plain_run [0, 0xFF, 0x0A] = (Exit_ok, [0])"
    using line_nul_bad by (rule plain_one_line)
  have c: "decode_line (decode_char ascii_libc) [0x41, 0, 0x42, 0x0A] = Some [0x41, 0, 0x42, 0x0A]"
    by (simp add: ascii_libc_def ascii_decode_line)
  have d: "total_width (char_width ascii_libc) (butlast [0x41, 0, 0x42, 0x0A]) = 2"
    by (simp add: ascii_libc_def total_width_def ascii_width_def)
  have e: "decode_line (decode_char ascii_libc) [0, 0xFF, 0x0A] = None"
    by (simp add: ascii_libc_def decode_line_def)
  from a b c d e show ?thesis by blast
qed

text \<open>
  C7, amended.  For a line that holds no null byte and is shorter than \<open>LINE_MAX\<close>
  bytes: if the line decodes, to \<open>n\<close> code points, the harness writes the total
  width of the first \<open>n - 1\<close> of them, which is -1 if one of them has width -1 (on a
  line that ends with a line terminator these are all but the terminator); if the
  line holds an undecodable byte sequence, it writes -1.
\<close>

theorem line_width_when_line_fits:
  "sane_libc L \<Longrightarrow> getline input = Some (line, rest) \<Longrightarrow> 0 \<notin> set line \<Longrightarrow>
   length line < LINE_MAX L \<Longrightarrow> \<not> pf k \<Longrightarrow>
   read_loop L pf se input k =
     emit (case decode_line (decode_char L) line of
             None \<Rightarrow> - 1
           | Some ws \<Rightarrow> total_width (char_width L) (butlast ws))
       (read_loop L pf se rest (k + 1))"
proof -
  assume sane: "sane_libc L" and g: "getline input = Some (line, rest)"
    and n: "0 \<notin> set line" and l: "length line < LINE_MAX L" and w: "\<not> pf k"
  have "line_result L line =
        Inr (case decode_line (decode_char L) line of
               None \<Rightarrow> - 1
             | Some ws \<Rightarrow> total_width (char_width L) (butlast ws))"
  proof (cases "decode_line (decode_char L) line")
    case None
    then show ?thesis using line_result_undecodable [OF sane n l] by simp
  next
    case (Some ws)
    then show ?thesis using line_result_decodable [OF sane n l] by simp
  qed
  from read_loop_line [OF g this, of pf se k] w show ?thesis by simp
qed

theorem line_width_when_line_fits_witness:
  "sane_libc ascii_libc \<and>
   getline [0x41, 0x0A] = Some ([0x41, 0x0A], []) \<and> 0 \<notin> set [0x41, 0x0A :: byte] \<and>
   length [0x41, 0x0A :: byte] < LINE_MAX ascii_libc \<and>
   getline [0x0A] = Some ([0x0A], []) \<and> 0 \<notin> set [0x0A :: byte] \<and>
   length [0x0A :: byte] < LINE_MAX ascii_libc \<and>
   getline [0xFF, 0x0A] = Some ([0xFF, 0x0A], []) \<and> 0 \<notin> set [0xFF, 0x0A :: byte] \<and>
   length [0xFF, 0x0A :: byte] < LINE_MAX ascii_libc \<and>
   char_width ascii_libc 0x41 = 1 \<and>
   wcswidths_main ascii_libc plain_run [0x41, 0x0A] = (Exit_ok, [1]) \<and>
   wcswidths_main ascii_libc plain_run [0x0A] = (Exit_ok, [0]) \<and>
   wcswidths_main ascii_libc plain_run [0xFF, 0x0A] = (Exit_ok, [- 1])"
proof -
  have g1: "getline [0x41, 0x0A] = Some ([0x41, 0x0A], [])"
    and g2: "getline [0x0A] = Some ([0x0A], [])"
    and g3: "getline [0xFF, 0x0A] = Some ([0xFF, 0x0A], [])"
    by (simp_all add: getline_def)
  have n1: "0 \<notin> set [0x41, 0x0A :: byte]" and n2: "0 \<notin> set [0x0A :: byte]"
    and n3: "0 \<notin> set [0xFF, 0x0A :: byte]"
    by simp_all
  have l1: "length [0x41, 0x0A :: byte] < LINE_MAX ascii_libc"
    and l2: "length [0x0A :: byte] < LINE_MAX ascii_libc"
    and l3: "length [0xFF, 0x0A :: byte] < LINE_MAX ascii_libc"
    by (simp_all add: ascii_libc_def)
  have w: "\<not> (\<lambda>k. False) (0 :: nat)" by simp
  have d1: "decode_line (decode_char ascii_libc) [0x41, 0x0A] = Some [0x41, 0x0A]"
    and d2: "decode_line (decode_char ascii_libc) [0x0A] = Some [0x0A]"
    by (simp_all add: ascii_libc_def ascii_decode_line)
  have d3: "decode_line (decode_char ascii_libc) [0xFF, 0x0A] = None"
    by (simp add: ascii_libc_def decode_line_def)
  have cw: "char_width ascii_libc 0x41 = 1"
    by (simp add: ascii_libc_def ascii_width_def)
  have r1: "wcswidths_main ascii_libc plain_run [0x41, 0x0A] = (Exit_ok, [1])"
    unfolding main_plain_run
      line_width_when_line_fits [OF sane_ascii_libc g1 n1 l1 w, of False] d1
    by (simp add: read_loop_eof total_width_def ascii_libc_def ascii_width_def)
  have r2: "wcswidths_main ascii_libc plain_run [0x0A] = (Exit_ok, [0])"
    unfolding main_plain_run
      line_width_when_line_fits [OF sane_ascii_libc g2 n2 l2 w, of False] d2
    by (simp add: read_loop_eof total_width_def ascii_libc_def ascii_width_def)
  have r3: "wcswidths_main ascii_libc plain_run [0xFF, 0x0A] = (Exit_ok, [- 1])"
    unfolding main_plain_run
      line_width_when_line_fits [OF sane_ascii_libc g3 n3 l3 w, of False] d3
    by (simp add: read_loop_eof)
  from sane_ascii_libc g1 g2 g3 n1 n2 n3 l1 l2 l3 cw r1 r2 r3 show ?thesis by blast
qed




text \<open>
  C10.  A last line without a newline is handled like any other: \<open>wcswidth\<close> is
  given \<open>count - 1\<close> wide characters, so the last character converted is left out.
  The loop is taken at the point where that line is all that is left of the input.
  For a line that \<open>mbstowcs\<close> converts to fewer than \<open>LINE_MAX\<close> wide characters the
  harness writes the width of all but the last of them; a line of one character
  gives 0, whatever the width of the character.
\<close>

theorem unterminated_last_line_drops_last_character:
  "sane_libc L \<Longrightarrow> line \<noteq> [] \<Longrightarrow> 0x0A \<notin> set line \<Longrightarrow>
   mbs_convert (decode_char L) (sizeof_runes L) (takeWhile (\<lambda>b. b \<noteq> 0) line) = Some ws \<Longrightarrow>
   length ws < LINE_MAX L \<Longrightarrow> \<not> pf k \<Longrightarrow>
   read_loop L pf se line k =
     (if se then Exit_fail Getline_failed else Exit_ok,
      [total_width (char_width L) (butlast ws)]) \<and>
   (length ws = 1 \<longrightarrow> snd (read_loop L pf se line k) = [0])"
proof -
  assume sane: "sane_libc L" and ne: "line \<noteq> []" and e: "0x0A \<notin> set line"
    and d: "mbs_convert (decode_char L) (sizeof_runes L) (takeWhile (\<lambda>b. b \<noteq> 0) line) = Some ws"
    and l: "length ws < LINE_MAX L" and w: "\<not> pf k"
  have r: "line_result L line = Inr (total_width (char_width L) (butlast ws))"
    by (rule line_result_fits [OF sane d l])
  have a: "read_loop L pf se line k =
     (if se then Exit_fail Getline_failed else Exit_ok,
      [total_width (char_width L) (butlast ws)])"
    using read_loop_one_line [where pf = pf and k = k and se = se, OF getline_no_eol [OF ne e] r] w
    by simp
  have "butlast ws = []" if "length ws = 1"
    using that by (cases ws) simp_all
  then have "length ws = 1 \<longrightarrow> snd (read_loop L pf se line k) = [0]"
    by (simp add: a total_width_def)
  with a show ?thesis by blast
qed

theorem unterminated_last_line_drops_last_character_witness:
  "sane_libc ascii_libc \<and> [0x41 :: byte] \<noteq> [] \<and> 0x0A \<notin> set [0x41 :: byte] \<and>
   mbs_convert (decode_char ascii_libc) (sizeof_runes ascii_libc)
     (takeWhile (\<lambda>b. b \<noteq> 0) [0x41]) = Some [0x41] \<and>
   length [0x41 :: int] < LINE_MAX ascii_libc \<and> \<not> (\<lambda>k. False) (0 :: nat) \<and>
   char_width ascii_libc 0x41 = 1 \<and> length [0x41 :: int] = 1 \<and>
   wcswidths_main ascii_libc plain_run [0x41] = (Exit_ok, [0])"
proof -
  have ne: "[0x41 :: byte] \<noteq> []" and e: "0x0A \<notin> set [0x41 :: byte]"
    by simp_all
  have l: "length [0x41 :: int] < LINE_MAX ascii_libc" by (simp add: ascii_libc_def)
  have "decode_upto (length [0x41 :: byte]) ascii_decode [0x41] = Some [0x41]"
    by simp
  then have "mbs_convert ascii_decode (sizeof_runes ascii_libc) [0x41] =
             Some (take (sizeof_runes ascii_libc) [0x41])"
    by (rule mbs_convert_take)
  then have d: "mbs_convert (decode_char ascii_libc) (sizeof_runes ascii_libc)
                  (takeWhile (\<lambda>b. b \<noteq> 0) [0x41]) = Some [0x41]"
    by (simp add: ascii_libc_def sizeof_runes_def)
  have w: "\<not> (\<lambda>k. False) (0 :: nat)" by simp
  have cw: "char_width ascii_libc 0x41 = 1" by (simp add: ascii_libc_def ascii_width_def)
  have "wcswidths_main ascii_libc plain_run [0x41] = (Exit_ok, [0])"
    using unterminated_last_line_drops_last_character [OF sane_ascii_libc ne e d l w, of False]
    unfolding main_plain_run by (simp add: total_width_def)
  with sane_ascii_libc ne e d l w cw show ?thesis by simp
qed

end
